theory Spec2Isabelle
  imports Main "HOL-Library.Sublist"
begin

section \<open>File-upload utilities: the model of \<open>app/file_utils.py\<close>\<close>

text \<open>
  Python strings are modelled as \<^typ>\<open>string\<close> (lists of 8-bit characters: the code
  points below 256), exceptions as values of the type \<open>error\<close>, and a function that may
  raise returns \<open>error + 'a\<close> (\<open>Inl\<close> carries the exception). \<open>ReError\<close> is
  \<open>re.error\<close>, which is neither a \<open>ValueError\<close> nor an \<open>IndexError\<close>.
\<close>

datatype error = ValueError | IndexError | ReError

subsection \<open>String primitives of Python used by the module\<close>

text \<open>\<open>sub in s\<close>: \<open>sub\<close> occurs in \<open>s\<close> as a contiguous substring.\<close>

fun contains :: "string \<Rightarrow> string \<Rightarrow> bool" where
  "contains sub [] = (sub = [])"
| "contains sub (c # cs) = (prefix sub (c # cs) \<or> contains sub cs)"

text \<open>\<open>s.find(sub)\<close>: the index of the first occurrence of \<open>sub\<close> in \<open>s\<close>, if any.\<close>

fun find_str :: "string \<Rightarrow> string \<Rightarrow> nat option" where
  "find_str sub [] = (if sub = [] then Some 0 else None)"
| "find_str sub (c # cs) =
     (if prefix sub (c # cs) then Some 0 else map_option Suc (find_str sub cs))"

text \<open>
  \<open>s.split(sep)\<close> for a non-empty separator: the fields between the non-overlapping
  occurrences of \<open>sep\<close>, found from left to right. The result is never empty.
  (Python raises on an empty separator; the module only splits at \<open>'base64,'\<close> and
  \<open>','\<close>, and for an empty separator the model returns the single field \<open>s\<close>.)
\<close>

function split_str :: "string \<Rightarrow> string \<Rightarrow> string list" where
  "split_str sep [] = [[]]"
| "split_str sep (c # cs) =
     (if sep \<noteq> [] \<and> prefix sep (c # cs)
      then [] # split_str sep (drop (length sep) (c # cs))
      else (case split_str sep cs of
              [] \<Rightarrow> [[c]]
            | f # fs \<Rightarrow> (c # f) # fs))"
  by pat_completeness auto
termination
  by (relation "measure (\<lambda>(sep, s). length s)") (auto simp: Suc_le_eq)

subsection \<open>Constants\<close>

definition MAX_FILE_SIZE_BASE64 :: nat where
  "MAX_FILE_SIZE_BASE64 = 25 * 1024 * 1024"

definition SUPPORTED_MIME_TYPES :: "string set" where
  "SUPPORTED_MIME_TYPES =
     {''text/plain'', ''text/markdown'', ''text/x-markdown'', ''application/pdf'',
      ''application/vnd.openxmlformats-officedocument.wordprocessingml.document''}"

subsection \<open>The codec: \<open>extract_base64_from_data_url\<close>\<close>

text \<open>
  The argument is \<open>None\<close> for Python's \<open>None\<close>. \<open>not data_url\<close> holds for \<open>None\<close> and
  for the empty string. \<open>xs[1]\<close> raises \<open>IndexError\<close> on a list shorter than two,
  \<open>xs[-1]\<close> on an empty list.
\<close>

definition extract_base64_from_data_url :: "string option \<Rightarrow> error + string" where
  "extract_base64_from_data_url data_url =
     (case data_url of
        None \<Rightarrow> Inl ValueError
      | Some s \<Rightarrow>
          if s = [] then Inl ValueError
          else if contains ''base64,'' s then
            (case split_str ''base64,'' s of
               _ # x # _ \<Rightarrow> Inr x
             | _ \<Rightarrow> Inl IndexError)
          else if contains '','' s then
            (case split_str '','' s of
               [] \<Rightarrow> Inl IndexError
             | xs \<Rightarrow> Inr (last xs))
          else Inr s)"

subsection \<open>The regular-expression engine, as far as the module uses it\<close>

text \<open>
  \<open>FILE_UPLOAD_MARKER_PATTERN = r'\[FILE_UPLOAD:(.+):([^:]+):([^\]]+)\]'\<close> is a
  sequence of literal characters and of capture groups of the form \<open>(C+)\<close> for a
  character class \<open>C\<close>. Python's \<open>re\<close> matches such a sequence by backtracking:
  a group first takes the longest run of characters of its class and gives characters
  back one at a time until the rest of the pattern matches; the first success is the match.
\<close>

datatype item = Lit char | PlusGroup "char \<Rightarrow> bool"

text \<open>\<open>greedy f n\<close> tries the lengths \<open>n, n - 1, \<dots>, 1\<close> in this order.\<close>

fun greedy :: "(nat \<Rightarrow> 'a option) \<Rightarrow> nat \<Rightarrow> 'a option" where
  "greedy f 0 = None"
| "greedy f (Suc k) = (case f (Suc k) of Some r \<Rightarrow> Some r | None \<Rightarrow> greedy f k)"

text \<open>
  \<open>match_here items s\<close> matches the pattern at the very start of \<open>s\<close> and returns the
  captured groups together with the unconsumed rest of \<open>s\<close>.
\<close>

primrec match_here :: "item list \<Rightarrow> string \<Rightarrow> (string list \<times> string) option" where
  "match_here [] s = Some ([], s)"
| "match_here (i # is) s =
     (case i of
        Lit c \<Rightarrow>
          (case s of
             [] \<Rightarrow> None
           | x # xs \<Rightarrow> if x = c then match_here is xs else None)
      | PlusGroup cls \<Rightarrow>
          greedy
            (\<lambda>k. case match_here is (drop k s) of
                   None \<Rightarrow> None
                 | Some (caps, rest) \<Rightarrow> Some (take k s # caps, rest))
            (length (takeWhile cls s)))"

text \<open>The dot matches every character except the line feed; a negated class matches it.\<close>

definition FILE_UPLOAD_MARKER_PATTERN :: "item list" where
  "FILE_UPLOAD_MARKER_PATTERN =
     map Lit ''[FILE_UPLOAD:'' @
     [PlusGroup (\<lambda>c. c \<noteq> CHR 0x0A), Lit CHR '':'',
      PlusGroup (\<lambda>c. c \<noteq> CHR '':''), Lit CHR '':'',
      PlusGroup (\<lambda>c. c \<noteq> CHR '']''), Lit CHR '']'']"

text \<open>
  \<open>re.findall(FILE_UPLOAD_MARKER_PATTERN, s)\<close>: the group triples of the non-overlapping
  matches, leftmost first; after a match the scan goes on at the end of the match, after a
  failure one character further. A match of this pattern is never empty, so the rest is
  always shorter than the text (\<open>match_here_marker_shorter\<close> below).
\<close>

function findall :: "string \<Rightarrow> (string \<times> string \<times> string) list" where
  "findall [] = []"
| "findall (c # cs) =
     (case match_here FILE_UPLOAD_MARKER_PATTERN (c # cs) of
        Some ([d, f, m], rest) \<Rightarrow>
          if length rest < length (c # cs) then (d, f, m) # findall rest else []
      | _ \<Rightarrow> findall cs)"
  by pat_completeness auto
termination
  by (relation "measure length") auto

text \<open>
  \<open>re.sub(p, repl, s)\<close> where \<open>p\<close> is assembled from \<open>re.escape\<close>d pieces, so that it
  matches exactly one literal string \<open>lit\<close>. The replacement \<open>repl\<close> is a template:
  \<open>re\<close> parses it before it searches, and a backslash in it starts an escape.
\<close>

definition BS :: char where
  "BS = CHR 0x5C"

definition is_digit :: "char \<Rightarrow> bool" where
  "is_digit c = (c \<in> set ''0123456789'')"

definition is_octdigit :: "char \<Rightarrow> bool" where
  "is_octdigit c = (c \<in> set ''01234567'')"

definition is_ascii_letter :: "char \<Rightarrow> bool" where
  "is_ascii_letter c =
     (c \<in> set ''abcdefghijklmnopqrstuvwxyzABCDEFGHIJKLMNOPQRSTUVWXYZ'')"

definition digit_val :: "char \<Rightarrow> nat" where
  "digit_val c = of_char c - 48"

definition oct_val :: "string \<Rightarrow> nat" where
  "oct_val ds = foldl (\<lambda>v d. 8 * v + digit_val d) 0 ds"

text \<open>
  \<open>name.isidentifier()\<close> on the code points below 256: the first character is a letter
  or the underscore, the others are letters, digits, the underscore or the middle dot.
\<close>

definition is_latin1_letter :: "char \<Rightarrow> bool" where
  "is_latin1_letter c =
     (let n = (of_char c :: nat)
      in n = 0xAA \<or> n = 0xB5 \<or> n = 0xBA \<or> (0xC0 \<le> n \<and> n \<le> 0xD6) \<or>
         (0xD8 \<le> n \<and> n \<le> 0xF6) \<or> 0xF8 \<le> n)"

definition is_identifier :: "string \<Rightarrow> bool" where
  "is_identifier name =
     (case name of
        [] \<Rightarrow> False
      | c # cs \<Rightarrow>
          (is_ascii_letter c \<or> c = CHR ''_'' \<or> is_latin1_letter c) \<and>
          list_all (\<lambda>x. is_ascii_letter x \<or> is_digit x \<or> x = CHR ''_'' \<or>
                         is_latin1_letter x \<or> x = CHR 0xB7) cs)"

text \<open>
  \<open>int(name) == 0\<close>: \<open>int\<close> strips white space at both ends, accepts one sign, and
  then wants decimal digits, with single underscores allowed between digits. The value is
  zero when all the digits are \<open>0\<close>.
\<close>

definition is_int_space :: "char \<Rightarrow> bool" where
  "is_int_space c =
     (c \<in> set [CHR 0x09, CHR 0x0A, CHR 0x0B, CHR 0x0C, CHR 0x0D, CHR 0x20, CHR 0x85,
                CHR 0xA0])"

fun zero_digits :: "string \<Rightarrow> bool" where
  "zero_digits [] = False"
| "zero_digits [c] = (c = CHR ''0'')"
| "zero_digits (c # d # r) =
     (c = CHR ''0'' \<and> (if d = CHR ''_'' then zero_digits r else zero_digits (d # r)))"

definition int_is_zero :: "string \<Rightarrow> bool" where
  "int_is_zero name =
     (case rev (dropWhile is_int_space (rev (dropWhile is_int_space name))) of
        [] \<Rightarrow> False
      | c # r \<Rightarrow>
          if c = CHR ''+'' \<or> c = CHR ''-'' then zero_digits r else zero_digits (c # r))"

definition ESCAPES :: "(char \<times> char) list" where
  "ESCAPES =
     [(CHR ''a'', CHR 0x07), (CHR ''b'', CHR 0x08), (CHR ''f'', CHR 0x0C),
      (CHR ''n'', CHR 0x0A), (CHR ''r'', CHR 0x0D), (CHR ''t'', CHR 0x09),
      (CHR ''v'', CHR 0x0B), (BS, BS)]"

text \<open>
  \<open>group_ref g0 r\<close>: the group reference \<open>\g<name>\<close>, \<open>r\<close> being the template after
  \<open>\g\<close>, for a pattern that has no group of its own: only group 0, the whole match
  \<open>g0\<close>, exists. As in \<open>parse_template\<close> of CPython 3.11: a name that is an identifier
  is an unknown group name, which \<open>re\<close> reports as an \<open>IndexError\<close> (unless its
  tokenizer, one token ahead, has already met a lone backslash at the end of the template);
  any other name is read by \<open>int\<close>, and every number but 0 is an invalid reference. The
  result is the text to insert and the number of characters of \<open>r\<close> used up.
\<close>

definition group_ref :: "string \<Rightarrow> string \<Rightarrow> error + (string \<times> nat)" where
  "group_ref g0 r =
     (case r of
        [] \<Rightarrow> Inl ReError
      | c # r1 \<Rightarrow>
          if c \<noteq> CHR ''<'' then Inl ReError
          else if CHR ''>'' \<notin> set r1 then Inl ReError
          else
            (let name = takeWhile (\<lambda>x. x \<noteq> CHR ''>'') r1;
                 used = length name + 2
             in if name = [] then Inl ReError
                else if is_identifier name then
                  (if drop used r = [BS] then Inl ReError else Inl IndexError)
                else if int_is_zero name then Inr (g0, used)
                else Inl ReError))"

text \<open>
  \<open>template_escape g0 r\<close>: one escape of the template, \<open>r\<close> being the template after the
  backslash (\<open>parse_template\<close> of CPython's \<open>re\<close>): \<open>\g<...>\<close>, octal escapes, numbered
  group references (all invalid here), the escapes of the table, an error for any other
  ASCII letter, and any other character kept together with its backslash.
\<close>

definition template_escape :: "string \<Rightarrow> string \<Rightarrow> error + (string \<times> nat)" where
  "template_escape g0 r =
     (case r of
        [] \<Rightarrow> Inl ReError
      | c # r1 \<Rightarrow>
          if c = CHR ''g'' then
            (case group_ref g0 r1 of
               Inl e \<Rightarrow> Inl e
             | Inr (out, n) \<Rightarrow> Inr (out, Suc n))
          else if c = CHR ''0'' then
            (let ds = (case r1 of
                         [] \<Rightarrow> []
                       | d1 # r2 \<Rightarrow>
                           if is_octdigit d1 then
                             (case r2 of
                                [] \<Rightarrow> [d1]
                              | d2 # _ \<Rightarrow> if is_octdigit d2 then [d1, d2] else [d1])
                           else [])
             in Inr ([char_of (oct_val ds mod 256)], Suc (length ds)))
          else if is_digit c then
            (case r1 of
               [] \<Rightarrow> Inl ReError
             | d1 # r2 \<Rightarrow>
                 if is_digit d1 then
                   (case r2 of
                      [] \<Rightarrow> Inl ReError
                    | d2 # _ \<Rightarrow>
                        if is_octdigit c \<and> is_octdigit d1 \<and> is_octdigit d2 then
                          (if oct_val [c, d1, d2] > 255 then Inl ReError
                           else Inr ([char_of (oct_val [c, d1, d2])], 3))
                        else Inl ReError)
                 else Inl ReError)
          else
            (case map_of ESCAPES c of
               Some x \<Rightarrow> Inr ([x], 1)
             | None \<Rightarrow> if is_ascii_letter c then Inl ReError else Inr ([BS, c], 1)))"

function parse_template :: "string \<Rightarrow> string \<Rightarrow> error + string" where
  "parse_template g0 [] = Inr []"
| "parse_template g0 (c # rest) =
     (if c = BS then
        (case template_escape g0 rest of
           Inl e \<Rightarrow> Inl e
         | Inr (out, n) \<Rightarrow>
             (case parse_template g0 (drop n rest) of
                Inl e \<Rightarrow> Inl e
              | Inr r \<Rightarrow> Inr (out @ r)))
      else
        (case parse_template g0 rest of
           Inl e \<Rightarrow> Inl e
         | Inr r \<Rightarrow> Inr (c # r)))"
  by pat_completeness auto
termination
  by (relation "measure (\<lambda>(g0, t). length t)") auto

text \<open>
  Replacing the non-overlapping occurrences of \<open>lit\<close> in a text by \<open>r\<close>, leftmost
  first. (An empty pattern matches before every character and at the end.)
\<close>

function replace_all :: "string \<Rightarrow> string \<Rightarrow> string \<Rightarrow> string" where
  "replace_all lit r [] = (if lit = [] then r else [])"
| "replace_all lit r (c # cs) =
     (if lit = [] then r @ c # replace_all lit r cs
      else if prefix lit (c # cs) then r @ replace_all lit r (drop (length lit) (c # cs))
      else c # replace_all lit r cs)"
  by pat_completeness auto
termination
  by (relation "measure (\<lambda>(lit, r, s). length s)") (auto simp: Suc_le_eq)

definition re_sub_literal :: "string \<Rightarrow> string \<Rightarrow> string \<Rightarrow> error + string" where
  "re_sub_literal lit repl s =
     (case parse_template lit repl of
        Inl e \<Rightarrow> Inl e
      | Inr r \<Rightarrow> Inr (replace_all lit r s))"

subsection \<open>The marker extractor: \<open>parse_file_upload_markers\<close>\<close>

text \<open>
  An element of an upload list is a dictionary from strings to strings, or some value that
  is not a dictionary (\<open>validate_file_upload\<close> tests for it).
\<close>

datatype upload = Dict "string \<rightharpoonup> string" | NonDict

definition marker_literal :: "string \<Rightarrow> string \<Rightarrow> string \<Rightarrow> string" where
  "marker_literal d f m = ''[FILE_UPLOAD:'' @ d @ '':'' @ f @ '':'' @ m @ '']''"

definition placeholder :: "string \<Rightarrow> string" where
  "placeholder filename = ''[Uploaded file: '' @ filename @ '']''"

definition caught :: "error \<Rightarrow> bool" where
  "caught e = (e = ValueError \<or> e = IndexError)"

text \<open>
  The body of the loop for one match, on the state \<open>(clean_query, file_uploads)\<close>.
  \<open>continue\<close> returns the state as it is; an exception caught by
  \<open>except (ValueError, IndexError)\<close> keeps what the body has done before it was raised;
  any other exception leaves the function (\<open>Inl\<close>).
\<close>

definition process_match ::
  "string \<times> string \<times> string \<Rightarrow> string \<times> upload list \<Rightarrow> error + (string \<times> upload list)"
where
  "process_match match st =
     (case match of (data_url_part, filename, mime_type) \<Rightarrow>
      case st of (clean_query, file_uploads) \<Rightarrow>
        (case extract_base64_from_data_url (Some data_url_part) of
           Inl e \<Rightarrow> if caught e then Inr (clean_query, file_uploads) else Inl e
         | Inr base64_data \<Rightarrow>
             if base64_data = [] then Inr (clean_query, file_uploads)
             else if length base64_data > MAX_FILE_SIZE_BASE64
               then Inr (clean_query, file_uploads)
             else
               (let file_uploads' = file_uploads @
                      [Dict [''base64_data'' \<mapsto> base64_data,
                             ''filename'' \<mapsto> filename,
                             ''mime_type'' \<mapsto> mime_type]]
                in case re_sub_literal (marker_literal data_url_part filename mime_type)
                          (placeholder filename) clean_query of
                     Inl e \<Rightarrow> if caught e then Inr (clean_query, file_uploads') else Inl e
                   | Inr clean_query' \<Rightarrow> Inr (clean_query', file_uploads'))))"

fun parse_loop ::
  "(string \<times> string \<times> string) list \<Rightarrow> string \<times> upload list \<Rightarrow> error + (string \<times> upload list)"
where
  "parse_loop [] st = Inr st"
| "parse_loop (match # matches) st =
     (case process_match match st of
        Inl e \<Rightarrow> Inl e
      | Inr st' \<Rightarrow> parse_loop matches st')"

definition parse_file_upload_markers :: "string \<Rightarrow> error + (string \<times> upload list)" where
  "parse_file_upload_markers query_text = parse_loop (findall query_text) (query_text, [])"

subsection \<open>The validator: \<open>validate_file_upload\<close>\<close>

definition required_fields :: "string list" where
  "required_fields = [''base64_data'', ''filename'', ''mime_type'']"

text \<open>\<open>d.get(k, '')\<close>.\<close>

definition get_or_empty :: "(string \<rightharpoonup> string) \<Rightarrow> string \<Rightarrow> string" where
  "get_or_empty d k = (case d k of None \<Rightarrow> [] | Some v \<Rightarrow> v)"

fun validate_file_upload :: "upload \<Rightarrow> bool" where
  "validate_file_upload NonDict = False"
| "validate_file_upload (Dict file_upload) =
     (if \<not> list_all (\<lambda>field. file_upload field \<noteq> None) required_fields then False
      else
        (let base64_data = get_or_empty file_upload ''base64_data''
         in if base64_data = [] \<or> length base64_data = 0 then False
            else if length base64_data > MAX_FILE_SIZE_BASE64 then False
            else
              (let mime_type = get_or_empty file_upload ''mime_type''
               in if mime_type \<noteq> [] \<and> mime_type \<notin> SUPPORTED_MIME_TYPES then True
                  else True)))"

subsection \<open>The normalizer: \<open>normalize_file_uploads\<close>\<close>

text \<open>
  \<open>if structured_uploads:\<close> holds for a list that is neither \<open>None\<close> nor empty. The
  loop of the first branch appends the valid uploads themselves, in order.
\<close>

definition normalize_file_uploads ::
  "upload list option \<Rightarrow> string \<Rightarrow> error + (string \<times> upload list)"
where
  "normalize_file_uploads structured_uploads query_text =
     (case structured_uploads of
        Some (u # us) \<Rightarrow> Inr (query_text, filter validate_file_upload (u # us))
      | _ \<Rightarrow>
          (case parse_file_upload_markers query_text of
             Inl e \<Rightarrow> Inl e
           | Inr (clean_query, parsed_uploads) \<Rightarrow> Inr (clean_query, [] @ parsed_uploads)))"

subsection \<open>Predicates used in the statements\<close>

text \<open>
  A complete upload: a dictionary that has the three required fields, with a non-empty
  \<open>base64_data\<close> of at most \<open>MAX_FILE_SIZE_BASE64\<close> characters.
\<close>

definition complete_upload :: "upload \<Rightarrow> bool" where
  "complete_upload u =
     (case u of
        NonDict \<Rightarrow> False
      | Dict fu \<Rightarrow>
          (case (fu ''base64_data'', fu ''filename'', fu ''mime_type'') of
             (Some b, Some f, Some m) \<Rightarrow> b \<noteq> [] \<and> length b \<le> MAX_FILE_SIZE_BASE64
           | _ \<Rightarrow> False))"

text \<open>
  A match is skipped when the codec raises on its first group, or returns an empty or an
  oversized payload.
\<close>

definition skipped :: "string \<Rightarrow> bool" where
  "skipped data_url_part =
     (case extract_base64_from_data_url (Some data_url_part) of
        Inl e \<Rightarrow> True
      | Inr b \<Rightarrow> b = [] \<or> length b > MAX_FILE_SIZE_BASE64)"

text \<open>
  \<open>overlaps a b\<close>: a non-empty end of \<open>a\<close> is a beginning of \<open>b\<close>. Two strings are
  apart when no occurrence of one in a text can share a character with an occurrence of the
  other: neither contains the other, and neither overlaps the other.
\<close>

fun overlaps :: "string \<Rightarrow> string \<Rightarrow> bool" where
  "overlaps [] b = False"
| "overlaps (x # xs) b = (prefix (x # xs) b \<or> overlaps xs b)"

definition apart :: "string \<Rightarrow> string \<Rightarrow> bool" where
  "apart a b = (\<not> contains a b \<and> \<not> contains b a \<and> \<not> overlaps a b \<and> \<not> overlaps b a)"

text \<open>The text that a pattern matches, given the texts of its groups.\<close>

fun render :: "item list \<Rightarrow> string list \<Rightarrow> string" where
  "render [] caps = []"
| "render (Lit c # items) caps = c # render items caps"
| "render (PlusGroup cls # items) [] = render items []"
| "render (PlusGroup cls # items) (cap # caps) = cap @ render items caps"

section \<open>Properties\<close>

subsection \<open>Strings\<close>

lemma contains_find_str: "contains sub s \<longleftrightarrow> find_str sub s \<noteq> None"
  by (induction s) auto

lemma split_str_not_Nil: "split_str sep s \<noteq> []"
  by (induction sep s rule: split_str.induct) (auto split: list.splits)

lemma split_str_no_occurrence: "find_str sep s = None \<Longrightarrow> split_str sep s = [s]"
  by (induction s) (auto split: if_splits)

lemma split_str_first_occurrence:
  "sep \<noteq> [] \<Longrightarrow> find_str sep s = Some i \<Longrightarrow>
   split_str sep s = take i s # split_str sep (drop (i + length sep) s)"
proof (induction s arbitrary: i)
  case Nil
  then show ?case by simp
next
  case (Cons c cs)
  show ?case
  proof (cases "prefix sep (c # cs)")
    case True
    with Cons.prems show ?thesis by simp
  next
    case False
    with Cons.prems obtain j where j: "find_str sep cs = Some j" "i = Suc j"
      by auto
    from Cons.IH [OF Cons.prems(1) j(1)] False j(2) show ?thesis
      by simp
  qed
qed


lemma hd_split_str:
  "sep \<noteq> [] \<Longrightarrow>
   hd (split_str sep s) = (case find_str sep s of None \<Rightarrow> s | Some j \<Rightarrow> take j s)"
  by (cases "find_str sep s")
     (simp_all add: split_str_no_occurrence split_str_first_occurrence)

lemma split_str_length_ge2:
  assumes "sep \<noteq> []" "contains sep s"
  shows "\<exists>a b bs. split_str sep s = a # b # bs"
proof -
  from assms(2) obtain i where i: "find_str sep s = Some i"
    by (auto simp: contains_find_str)
  obtain b bs where "split_str sep (drop (i + length sep) s) = b # bs"
    using split_str_not_Nil [of sep "drop (i + length sep) s"]
    by (cases "split_str sep (drop (i + length sep) s)") auto
  with split_str_first_occurrence [OF assms(1) i] show ?thesis by simp
qed

lemma codec_error_is_ValueError:
  "extract_base64_from_data_url d = Inl e \<Longrightarrow> e = ValueError \<and> (d = None \<or> d = Some [])"
proof (cases d)
  case None
  assume "extract_base64_from_data_url d = Inl e"
  with None show ?thesis by (simp add: extract_base64_from_data_url_def)
next
  case (Some s)
  assume a: "extract_base64_from_data_url d = Inl e"
  show ?thesis
  proof (cases "s = []")
    case True
    with a Some show ?thesis by (simp add: extract_base64_from_data_url_def)
  next
    case False
    have "\<exists>r. extract_base64_from_data_url (Some s) = Inr r"
    proof (cases "contains ''base64,'' s")
      case True
      then obtain a b bs where "split_str ''base64,'' s = a # b # bs"
        using split_str_length_ge2 [of "''base64,''" s] by auto
      with True False show ?thesis by (simp add: extract_base64_from_data_url_def)
    next
      case nb: False
      obtain x xs where "split_str '','' s = x # xs"
        using split_str_not_Nil [of "'',''" s] by (cases "split_str '','' s") auto
      with nb False show ?thesis by (simp add: extract_base64_from_data_url_def)
    qed
    with a Some show ?thesis by auto
  qed
qed

lemma contains_comma_iff: "contains '','' s \<longleftrightarrow> CHR '','' \<in> set s"
  by (induction s) auto

lemma codec_base64_value:
  assumes "find_str ''base64,'' s = Some i"
  shows "extract_base64_from_data_url (Some s) =
           Inr (case find_str ''base64,'' (drop (i + 7) s) of
                  None \<Rightarrow> drop (i + 7) s
                | Some j \<Rightarrow> take j (drop (i + 7) s))"
proof -
  let ?sep = "''base64,''"
  let ?suf = "drop (i + 7) s"
  have ne: "s \<noteq> []" using assms by auto
  have c: "contains ?sep s" using assms by (simp add: contains_find_str)
  have "split_str ?sep s = take i s # split_str ?sep (drop (i + length ?sep) s)"
    by (rule split_str_first_occurrence) (simp, rule assms)
  moreover have "i + length ?sep = i + 7" by simp
  ultimately have sp: "split_str ?sep s = take i s # split_str ?sep ?suf"
    by (simp only:)
  obtain x xs where x: "split_str ?sep ?suf = x # xs"
    using split_str_not_Nil [of ?sep ?suf] by (cases "split_str ?sep ?suf") auto
  have "x = hd (split_str ?sep ?suf)" using x by simp
  also have "\<dots> = (case find_str ?sep ?suf of None \<Rightarrow> ?suf | Some j \<Rightarrow> take j ?suf)"
    by (rule hd_split_str) simp
  finally have hx: "x = (case find_str ?sep ?suf of None \<Rightarrow> ?suf | Some j \<Rightarrow> take j ?suf)" .
  show ?thesis
    unfolding extract_base64_from_data_url_def using ne c sp x hx by simp
qed


subsection \<open>The codec\<close>

text \<open>
  Claim C3, as amended. For every string that contains \<open>"base64,"\<close>, the first
  occurrence being at index \<open>i\<close>, the codec returns the part of the string that
  follows this occurrence, up to the next occurrence of \<open>"base64,"\<close> in that part:
  the whole suffix when there is no further occurrence, only the text in front of the next
  one otherwise. The rule is applied whatever commas the string has, so it takes precedence
  over the comma rule.
\<close>

theorem codec_base64_rule:
  assumes "find_str ''base64,'' s = Some i"
  shows "extract_base64_from_data_url (Some s) =
           Inr (case find_str ''base64,'' (drop (i + 7) s) of
                  None \<Rightarrow> drop (i + 7) s
                | Some j \<Rightarrow> take j (drop (i + 7) s))"
  using assms by (rule codec_base64_value)

theorem codec_base64_rule_witness:
  "find_str ''base64,'' ''data:text/plain;base64,ABC,DEF'' = Some 16 \<and>
   extract_base64_from_data_url (Some ''data:text/plain;base64,ABC,DEF'') = Inr ''ABC,DEF''"
proof -
  have h: "find_str ''base64,'' ''data:text/plain;base64,ABC,DEF'' = Some 16" by simp
  from codec_base64_rule [OF h] h show ?thesis by simp
qed

text \<open>
  The claim as it was stated promises the entire suffix, later occurrences included. In
  \<open>"x;base64,Abase64,B"\<close> the first occurrence is at index 2 and the suffix after it is
  \<open>"Abase64,B"\<close>, but \<open>split('base64,')[1]\<close> is \<open>"A"\<close>.
\<close>

theorem codec_whole_suffix_counterexample:
  "find_str ''base64,'' ''x;base64,Abase64,B'' = Some 2 \<and>
   drop (2 + 7) ''x;base64,Abase64,B'' = ''Abase64,B'' \<and>
   extract_base64_from_data_url (Some ''x;base64,Abase64,B'') = Inr ''A'' \<and>
   extract_base64_from_data_url (Some ''x;base64,Abase64,B'') \<noteq> Inr ''Abase64,B''"
  by (simp add: extract_base64_from_data_url_def)

text \<open>
  Claim C8. The codec raises \<open>ValueError\<close> exactly when its input is \<open>None\<close> or the
  empty string, and it raises nothing else; for every non-empty string it returns a string.
  It does not look at the alphabet of the payload: a non-empty string without a comma is
  returned as it is, whatever its characters.
\<close>

theorem codec_raises_iff_empty:
  "(extract_base64_from_data_url d = Inl ValueError \<longleftrightarrow> d = None \<or> d = Some []) \<and>
   (\<forall>e. extract_base64_from_data_url d = Inl e \<longrightarrow> e = ValueError) \<and>
   (\<forall>s. d = Some s \<and> s \<noteq> [] \<longrightarrow> (\<exists>r. extract_base64_from_data_url d = Inr r)) \<and>
   (\<forall>s. d = Some s \<and> s \<noteq> [] \<and> CHR '','' \<notin> set s \<longrightarrow> extract_base64_from_data_url d = Inr s)"
proof (intro conjI allI impI)
  show "extract_base64_from_data_url d = Inl ValueError \<longleftrightarrow> d = None \<or> d = Some []"
    using codec_error_is_ValueError [of d ValueError]
    by (auto simp: extract_base64_from_data_url_def)
next
  fix e assume "extract_base64_from_data_url d = Inl e"
  then show "e = ValueError" using codec_error_is_ValueError by blast
next
  fix s assume a: "d = Some s \<and> s \<noteq> []"
  show "\<exists>r. extract_base64_from_data_url d = Inr r"
  proof (cases "extract_base64_from_data_url d")
    case (Inl e)
    with codec_error_is_ValueError [OF Inl] a show ?thesis by auto
  next
    case (Inr r)
    then show ?thesis by blast
  qed
next
  fix s assume a: "d = Some s \<and> s \<noteq> [] \<and> CHR '','' \<notin> set s"
  then have nc: "\<not> contains '','' s" by (simp add: contains_comma_iff)
  have "\<not> contains ''base64,'' s"
  proof
    assume "contains ''base64,'' s"
    then obtain i where i: "find_str ''base64,'' s = Some i"
      by (auto simp: contains_find_str)
    have "prefix ''base64,'' (drop i s)" using i
      by (induction s arbitrary: i) (auto split: if_splits)
    then have "set ''base64,'' \<subseteq> set (drop i s)" by (rule set_mono_prefix)
    then have "CHR '','' \<in> set (drop i s)" by simp
    then have "CHR '','' \<in> set s" by (rule in_set_dropD)
    with a show False by simp
  qed
  with nc a show "extract_base64_from_data_url d = Inr s"
    by (simp add: extract_base64_from_data_url_def)
qed

theorem codec_raises_iff_empty_witness:
  "extract_base64_from_data_url (Some ''not base64 !'') = Inr ''not base64 !'' \<and>
   extract_base64_from_data_url (Some []) = Inl ValueError \<and>
   extract_base64_from_data_url None = Inl ValueError"
  using codec_raises_iff_empty [of "Some ''not base64 !''"]
        codec_raises_iff_empty [of "Some []"] codec_raises_iff_empty [of None]
  by simp

subsection \<open>The validator\<close>

lemma validate_iff_complete: "validate_file_upload u \<longleftrightarrow> complete_upload u"
  by (cases u)
     (auto simp: complete_upload_def required_fields_def get_or_empty_def
           split: option.splits)

text \<open>
  Claim C6. A dictionary that has the three required fields and a non-empty
  \<open>base64_data\<close> of at most \<open>MAX_FILE_SIZE_BASE64\<close> characters is valid, whatever its
  \<open>mime_type\<close> is: a MIME type outside \<open>SUPPORTED_MIME_TYPES\<close> does not invalidate it.
\<close>

theorem validator_ignores_mime:
  assumes "fu ''base64_data'' = Some b" "fu ''filename'' = Some f" "fu ''mime_type'' = Some m"
    and "b \<noteq> []" "length b \<le> MAX_FILE_SIZE_BASE64"
  shows "validate_file_upload (Dict fu)"
  using assms by (simp add: required_fields_def get_or_empty_def)

theorem validator_ignores_mime_witness:
  "''application/x-unknown'' \<notin> SUPPORTED_MIME_TYPES \<and>
   validate_file_upload
     (Dict [''base64_data'' \<mapsto> ''aGk='', ''filename'' \<mapsto> ''a.bin'',
            ''mime_type'' \<mapsto> ''application/x-unknown''])"
proof -
  let ?fu = "[''base64_data'' \<mapsto> ''aGk='', ''filename'' \<mapsto> ''a.bin'',
              ''mime_type'' \<mapsto> ''application/x-unknown'']"
  have "validate_file_upload (Dict ?fu)"
    by (rule validator_ignores_mime [of ?fu "''aGk=''" "''a.bin''" "''application/x-unknown''"])
       (simp_all add: MAX_FILE_SIZE_BASE64_def)
  moreover have "''application/x-unknown'' \<notin> SUPPORTED_MIME_TYPES"
    by (simp add: SUPPORTED_MIME_TYPES_def)
  ultimately show ?thesis by (simp only: simp_thms)
qed

subsection \<open>The normalizer, structured branch\<close>

text \<open>
  Claim C1. When \<open>normalize_file_uploads\<close> is given a non-empty structured list, it
  returns the text exactly as it was given, markers or not, together with the entries of
  the list that \<open>validate_file_upload\<close> accepts, in the order of the list. The result
  does not depend on what \<open>parse_file_upload_markers\<close> would do with the text.
\<close>

theorem normalize_structured:
  assumes "structured \<noteq> []"
  shows "normalize_file_uploads (Some structured) text =
           Inr (text, filter validate_file_upload structured)"
  using assms by (cases structured) (simp_all add: normalize_file_uploads_def)

theorem normalize_structured_witness:
  "normalize_file_uploads
     (Some [NonDict,
            Dict [''base64_data'' \<mapsto> ''aGk='', ''filename'' \<mapsto> ''a.txt'',
                  ''mime_type'' \<mapsto> ''text/plain''],
            Dict [''base64_data'' \<mapsto> [], ''filename'' \<mapsto> ''b.txt'',
                  ''mime_type'' \<mapsto> ''text/plain''],
            Dict [''base64_data'' \<mapsto> ''eW8='', ''filename'' \<mapsto> ''c.txt'']])
     ''see [FILE_UPLOAD:data:text/plain;base64,aGk=:m.txt:text/plain]'' =
   Inr (''see [FILE_UPLOAD:data:text/plain;base64,aGk=:m.txt:text/plain]'',
        [Dict [''base64_data'' \<mapsto> ''aGk='', ''filename'' \<mapsto> ''a.txt'',
               ''mime_type'' \<mapsto> ''text/plain'']])"
proof -
  let ?L = "[NonDict,
            Dict [''base64_data'' \<mapsto> ''aGk='', ''filename'' \<mapsto> ''a.txt'',
                  ''mime_type'' \<mapsto> ''text/plain''],
            Dict [''base64_data'' \<mapsto> [], ''filename'' \<mapsto> ''b.txt'',
                  ''mime_type'' \<mapsto> ''text/plain''],
            Dict [''base64_data'' \<mapsto> ''eW8='', ''filename'' \<mapsto> ''c.txt'']]"
  have ne: "?L \<noteq> []" by simp
  show ?thesis
    unfolding normalize_structured [OF ne]
    by (simp add: required_fields_def get_or_empty_def MAX_FILE_SIZE_BASE64_def)
qed

text \<open>
  Claim C9. On the structured branch normalization is idempotent: if a non-empty list is
  normalized to a list \<open>kept\<close> that is not empty, normalizing \<open>kept\<close> with the same
  text returns \<open>kept\<close> again (and the text).
\<close>

theorem normalize_structured_idempotent:
  assumes "structured \<noteq> []"
    and "normalize_file_uploads (Some structured) text = Inr (text', kept)"
    and "kept \<noteq> []"
  shows "normalize_file_uploads (Some kept) text = Inr (text, kept)"
proof -
  from assms(1,2) have k: "kept = filter validate_file_upload structured"
    by (cases structured) (simp_all add: normalize_file_uploads_def)
  have "filter validate_file_upload kept = kept" unfolding k by simp
  with assms(3) show ?thesis
    by (cases kept) (simp_all add: normalize_file_uploads_def)
qed

theorem normalize_structured_idempotent_witness:
  "normalize_file_uploads
     (Some [Dict [''base64_data'' \<mapsto> ''aGk='', ''filename'' \<mapsto> ''a.txt'',
                  ''mime_type'' \<mapsto> ''text/plain'']]) ''hi'' =
   Inr (''hi'', [Dict [''base64_data'' \<mapsto> ''aGk='', ''filename'' \<mapsto> ''a.txt'',
                       ''mime_type'' \<mapsto> ''text/plain'']])"
proof -
  let ?a = "Dict [''base64_data'' \<mapsto> ''aGk='', ''filename'' \<mapsto> ''a.txt'',
                  ''mime_type'' \<mapsto> ''text/plain'']"
  have n: "normalize_file_uploads (Some [NonDict, ?a]) ''hi'' = Inr (''hi'', [?a])"
    by (simp add: normalize_file_uploads_def required_fields_def get_or_empty_def
                  MAX_FILE_SIZE_BASE64_def)
  show ?thesis
    by (rule normalize_structured_idempotent [OF _ n]) simp_all
qed

subsection \<open>The regular expression and the template\<close>

lemma greedy_Some: "greedy f n = Some r \<Longrightarrow> \<exists>k. 0 < k \<and> k \<le> n \<and> f k = Some r"
proof (induction n)
  case 0
  then show ?case by simp
next
  case (Suc n)
  then show ?case
    by (cases "f (Suc n)") (auto intro: le_SucI)
qed

lemma match_here_rest:
  "match_here items s = Some (caps, rest) \<Longrightarrow>
   length rest \<le> length s \<and> length caps = length (filter (\<lambda>i. \<forall>c. i \<noteq> Lit c) items)"
proof (induction items arbitrary: s caps rest)
  case Nil
  then show ?case by simp
next
  case (Cons i items)
  show ?case
  proof (cases i)
    case (Lit c)
    with Cons.prems obtain xs where "s = c # xs" "match_here items xs = Some (caps, rest)"
      by (auto split: list.splits if_splits)
    with Cons.IH [of xs caps rest] Lit show ?thesis by simp
  next
    case (PlusGroup cls)
    with Cons.prems obtain k where
      "(case match_here items (drop k s) of None \<Rightarrow> None
        | Some (caps', rest') \<Rightarrow> Some (take k s # caps', rest')) = Some (caps, rest)"
      by (auto dest!: greedy_Some)
    then obtain caps' where "match_here items (drop k s) = Some (caps', rest)"
      "caps = take k s # caps'"
      by (auto split: option.splits)
    with Cons.IH [of "drop k s" caps' rest] PlusGroup show ?thesis by auto
  qed
qed

text \<open>
  A match of the marker pattern has three groups and consumes at least one character, so
  the test on the length of the rest in \<open>findall\<close> always succeeds.
\<close>

lemma match_here_marker_shorter:
  assumes "match_here FILE_UPLOAD_MARKER_PATTERN s = Some (caps, rest)"
  shows "length rest < length s \<and> length caps = 3"
proof -
  let ?tail = "tl FILE_UPLOAD_MARKER_PATTERN"
  have p: "FILE_UPLOAD_MARKER_PATTERN = Lit CHR ''['' # ?tail"
    by (simp add: FILE_UPLOAD_MARKER_PATTERN_def)
  from assms obtain xs where s: "s = CHR ''['' # xs"
    and m: "match_here ?tail xs = Some (caps, rest)"
    by (subst (asm) p) (auto split: list.splits if_splits)
  from match_here_rest [OF m] s show ?thesis
    by (simp add: FILE_UPLOAD_MARKER_PATTERN_def)
qed

lemma findall_Cons:
  "findall (c # cs) =
     (case match_here FILE_UPLOAD_MARKER_PATTERN (c # cs) of
        None \<Rightarrow> findall cs
      | Some (caps, rest) \<Rightarrow> (caps ! 0, caps ! 1, caps ! 2) # findall rest)"
proof (cases "match_here FILE_UPLOAD_MARKER_PATTERN (c # cs)")
  case None
  then show ?thesis by simp
next
  case (Some a)
  obtain caps rest where a: "a = (caps, rest)" by (cases a) auto
  from match_here_marker_shorter [OF Some [unfolded a]]
  have l: "length rest < length (c # cs)" and "length caps = 3" by simp_all
  then obtain d f m where caps: "caps = [d, f, m]"
    by (cases caps; cases "tl caps"; cases "tl (tl caps)") auto
  from Some a caps l show ?thesis by simp
qed

text \<open>A template without a backslash is taken literally.\<close>

lemma parse_template_plain: "BS \<notin> set t \<Longrightarrow> parse_template g0 t = Inr t"
  by (induction t) auto

subsection \<open>The loop of the marker extractor\<close>

lemmas marker_eval =
  parse_file_upload_markers_def FILE_UPLOAD_MARKER_PATTERN_def process_match_def
  extract_base64_from_data_url_def re_sub_literal_def marker_literal_def placeholder_def
  caught_def MAX_FILE_SIZE_BASE64_def BS_def

lemma codec_error_caught: "extract_base64_from_data_url d = Inl e \<Longrightarrow> caught e"
  by (drule codec_error_is_ValueError) (simp add: caught_def)

lemma process_match_skipped:
  "skipped d \<Longrightarrow> process_match (d, f, m) st = Inr st"
  by (cases st)
     (auto simp: skipped_def process_match_def split: sum.splits dest: codec_error_caught)

lemma process_match_kept:
  assumes "\<not> skipped d"
  shows "\<exists>b. extract_base64_from_data_url (Some d) = Inr b \<and> b \<noteq> [] \<and>
             length b \<le> MAX_FILE_SIZE_BASE64 \<and>
             process_match (d, f, m) (clean, ups) =
               (let ups' = ups @ [Dict [''base64_data'' \<mapsto> b, ''filename'' \<mapsto> f,
                                         ''mime_type'' \<mapsto> m]]
                in case re_sub_literal (marker_literal d f m) (placeholder f) clean of
                     Inl e \<Rightarrow> if caught e then Inr (clean, ups') else Inl e
                   | Inr clean' \<Rightarrow> Inr (clean', ups'))"
  using assms
  by (auto simp: skipped_def process_match_def Let_def split: sum.splits)

lemma process_match_cases:
  assumes "process_match (d, f, m) (clean, ups) = Inr (clean', ups')"
  shows "ups' = ups \<or>
         (\<exists>b. extract_base64_from_data_url (Some d) = Inr b \<and> b \<noteq> [] \<and>
               length b \<le> MAX_FILE_SIZE_BASE64 \<and>
               ups' = ups @ [Dict [''base64_data'' \<mapsto> b, ''filename'' \<mapsto> f,
                                   ''mime_type'' \<mapsto> m]])"
proof (cases "skipped d")
  case True
  from process_match_skipped [OF True, of f m "(clean, ups)"] assms show ?thesis by simp
next
  case False
  from process_match_kept [OF False, of f m clean ups] obtain b where
    b: "extract_base64_from_data_url (Some d) = Inr b" "b \<noteq> []"
       "length b \<le> MAX_FILE_SIZE_BASE64"
    and pm: "process_match (d, f, m) (clean, ups) =
               (let ups' = ups @ [Dict [''base64_data'' \<mapsto> b, ''filename'' \<mapsto> f,
                                         ''mime_type'' \<mapsto> m]]
                in case re_sub_literal (marker_literal d f m) (placeholder f) clean of
                     Inl e \<Rightarrow> if caught e then Inr (clean, ups') else Inl e
                   | Inr clean' \<Rightarrow> Inr (clean', ups'))"
    by blast
  from pm assms have
    "ups' = ups @ [Dict [''base64_data'' \<mapsto> b, ''filename'' \<mapsto> f, ''mime_type'' \<mapsto> m]]"
    by (auto simp: Let_def split: sum.splits if_splits)
  with b show ?thesis by blast
qed

text \<open>
  For a kept match whose file name has no backslash, the iteration replaces every
  occurrence of the marker literal in the current text by the placeholder.
\<close>

lemma process_match_kept_plain:
  assumes "\<not> skipped d" and "BS \<notin> set f"
  shows "\<exists>b. extract_base64_from_data_url (Some d) = Inr b \<and>
             process_match (d, f, m) (clean, ups) =
               Inr (replace_all (marker_literal d f m) (placeholder f) clean,
                    ups @ [Dict [''base64_data'' \<mapsto> b, ''filename'' \<mapsto> f,
                                 ''mime_type'' \<mapsto> m]])"
proof -
  from assms(2) have "BS \<notin> set (placeholder f)"
    by (simp add: placeholder_def BS_def)
  then have "re_sub_literal (marker_literal d f m) (placeholder f) clean =
             Inr (replace_all (marker_literal d f m) (placeholder f) clean)"
    by (simp add: re_sub_literal_def parse_template_plain)
  with process_match_kept [OF assms(1), of f m clean ups] show ?thesis
    by (auto simp: Let_def)
qed

lemma complete_upload_marker:
  "b \<noteq> [] \<Longrightarrow> length b \<le> MAX_FILE_SIZE_BASE64 \<Longrightarrow>
   complete_upload (Dict [''base64_data'' \<mapsto> b, ''filename'' \<mapsto> f, ''mime_type'' \<mapsto> m])"
  by (simp add: complete_upload_def)

lemma process_match_complete:
  assumes "process_match match (clean, ups) = Inr (clean', ups')"
    and "list_all complete_upload ups"
  shows "list_all complete_upload ups'"
proof -
  obtain d f m where match: "match = (d, f, m)" by (cases match) auto
  from process_match_cases [OF assms(1) [unfolded match]] assms(2) show ?thesis
    by (auto simp: complete_upload_marker)
qed

lemma parse_loop_complete:
  "parse_loop matches (clean, ups) = Inr (clean', ups') \<Longrightarrow>
   list_all complete_upload ups \<Longrightarrow> list_all complete_upload ups'"
proof (induction matches arbitrary: clean ups)
  case Nil
  then show ?case by simp
next
  case (Cons match matches)
  from Cons.prems(1) obtain c1 u1 where
    step: "process_match match (clean, ups) = Inr (c1, u1)"
    and rest: "parse_loop matches (c1, u1) = Inr (clean', ups')"
    by (auto split: sum.splits)
  show ?case
    by (rule Cons.IH [OF rest process_match_complete [OF step Cons.prems(2)]])
qed

lemma parse_loop_skip:
  "parse_loop matches st =
   parse_loop (filter (\<lambda>match. \<not> skipped (fst match)) matches) st"
proof (induction matches arbitrary: st)
  case Nil
  show ?case by simp
next
  case (Cons match matches)
  obtain d f m where match: "match = (d, f, m)" by (cases match) auto
  show ?case
  proof (cases "skipped d")
    case True
    with Cons.IH [of st] match show ?thesis by (simp add: process_match_skipped)
  next
    case False
    with Cons.IH match show ?thesis by (simp split: sum.splits)
  qed
qed

text \<open>The example of the specification: one marker, a data URL, a plain file name.\<close>

lemma marker_round_trip_example:
  "parse_file_upload_markers
     ''hello [FILE_UPLOAD:data:text/plain;base64,aGk=:a.txt:text/plain] world'' =
   Inr (''hello [Uploaded file: a.txt] world'',
        [Dict [''base64_data'' \<mapsto> ''aGk='', ''filename'' \<mapsto> ''a.txt'',
               ''mime_type'' \<mapsto> ''text/plain'']])"
  by (simp add: marker_eval)

subsection \<open>The outputs of the normalizer\<close>

text \<open>
  Claim C4. Every upload in a list returned by \<open>normalize_file_uploads\<close>, from a
  structured list or from the markers of the text, is a dictionary with the three fields
  \<open>base64_data\<close>, \<open>filename\<close> and \<open>mime_type\<close>, whose \<open>base64_data\<close> is not empty
  and has at most \<open>25 * 1024 * 1024\<close> characters.
\<close>

theorem normalize_outputs_complete:
  assumes "normalize_file_uploads structured text = Inr (text', uploads)"
    and "u \<in> set uploads"
  shows "\<exists>fu b f m. u = Dict fu \<and> fu ''base64_data'' = Some b \<and> fu ''filename'' = Some f \<and>
           fu ''mime_type'' = Some m \<and> b \<noteq> [] \<and> length b \<le> 25 * 1024 * 1024"
proof -
  have "list_all complete_upload uploads"
  proof (cases "\<exists>x xs. structured = Some (x # xs)")
    case True
    then obtain x xs where "structured = Some (x # xs)" by blast
    with assms(1) have "uploads = filter validate_file_upload (x # xs)"
      by (simp add: normalize_file_uploads_def)
    then have "\<forall>u\<in>set uploads. validate_file_upload u"
      by (simp only: set_filter) blast
    then show ?thesis
      by (simp add: list_all_iff validate_iff_complete)
  next
    case False
    then have "normalize_file_uploads structured text =
        (case parse_file_upload_markers text of
           Inl e \<Rightarrow> Inl e
         | Inr (clean_query, parsed_uploads) \<Rightarrow> Inr (clean_query, [] @ parsed_uploads))"
      by (auto simp: normalize_file_uploads_def split: option.splits list.splits)
    with assms(1) have "parse_loop (findall text) (text, []) = Inr (text', uploads)"
      by (auto simp: parse_file_upload_markers_def split: sum.splits)
    from parse_loop_complete [OF this] show ?thesis by simp
  qed
  with assms(2) have "complete_upload u" by (simp add: list_all_iff)
  then show ?thesis
    by (cases u)
       (auto simp: complete_upload_def MAX_FILE_SIZE_BASE64_def split: option.splits)
qed

theorem normalize_outputs_complete_witness:
  "\<exists>fu b f m.
     Dict [''base64_data'' \<mapsto> ''aGk='', ''filename'' \<mapsto> ''a.txt'',
           ''mime_type'' \<mapsto> ''text/plain''] = Dict fu \<and>
     fu ''base64_data'' = Some b \<and> fu ''filename'' = Some f \<and> fu ''mime_type'' = Some m \<and>
     b \<noteq> [] \<and> length b \<le> 25 * 1024 * 1024"
proof -
  have "normalize_file_uploads None
          ''hello [FILE_UPLOAD:data:text/plain;base64,aGk=:a.txt:text/plain] world'' =
        Inr (''hello [Uploaded file: a.txt] world'',
             [Dict [''base64_data'' \<mapsto> ''aGk='', ''filename'' \<mapsto> ''a.txt'',
                    ''mime_type'' \<mapsto> ''text/plain'']])"
    by (simp add: normalize_file_uploads_def marker_round_trip_example)
  from normalize_outputs_complete [OF this] show ?thesis by simp
qed



subsection \<open>Skipped matches\<close>

lemma contains_iff: "contains sub s \<longleftrightarrow> (\<exists>pre post. s = pre @ sub @ post)"
proof
  show "contains sub s \<Longrightarrow> \<exists>pre post. s = pre @ sub @ post"
  proof (induction s)
    case Nil
    then show ?case by simp
  next
    case (Cons c cs)
    show ?case
    proof (cases "prefix sub (c # cs)")
      case True
      then obtain post where "c # cs = sub @ post" by (auto simp: prefix_def)
      then have "c # cs = [] @ sub @ post" by simp
      then show ?thesis by blast
    next
      case False
      with Cons obtain pre post where "cs = pre @ sub @ post" by auto
      then have "c # cs = (c # pre) @ sub @ post" by simp
      then show ?thesis by blast
    qed
  qed
next
  assume "\<exists>pre post. s = pre @ sub @ post"
  then obtain pre post where s: "s = pre @ sub @ post" by blast
  show "contains sub s" unfolding s
  proof (induction pre)
    case Nil
    have p: "prefix sub (sub @ post)" by simp
    show ?case
    proof (cases "sub @ post")
      case Nil
      then show ?thesis by simp
    next
      case (Cons a list)
      with p show ?thesis by simp
    qed
  next
    case (Cons a pre)
    then show ?case by simp
  qed
qed

lemma contains_appendI: "contains sub s \<Longrightarrow> contains sub (pre @ s @ post)"
proof -
  assume "contains sub s"
  then obtain p q where "s = p @ sub @ q" by (auto simp: contains_iff)
  then have "pre @ s @ post = (pre @ p) @ sub @ (q @ post)" by simp
  then show ?thesis unfolding contains_iff by blast
qed

lemma contains_prependI: "contains sub s \<Longrightarrow> contains sub (pre @ s)"
  using contains_appendI [of sub s pre "[]"] by simp

lemma contains_ConsI: "contains sub s \<Longrightarrow> contains sub (c # s)"
  using contains_prependI [of sub s "[c]"] by simp

lemma prefix_contains: "prefix sub s \<Longrightarrow> contains sub s"
  by (auto simp: prefix_def contains_iff intro: exI [of _ "[]"])

lemma overlaps_iff: "overlaps a b \<longleftrightarrow> (\<exists>u v. a = u @ v \<and> v \<noteq> [] \<and> prefix v b)"
proof (induction a)
  case Nil
  show ?case by simp
next
  case (Cons x xs)
  show ?case
  proof
    assume "overlaps (x # xs) b"
    then consider "prefix (x # xs) b" | "overlaps xs b" by auto
    then show "\<exists>u v. x # xs = u @ v \<and> v \<noteq> [] \<and> prefix v b"
    proof cases
      case 1
      then have "x # xs = [] @ (x # xs) \<and> x # xs \<noteq> [] \<and> prefix (x # xs) b" by simp
      then show ?thesis by blast
    next
      case 2
      with Cons obtain u v where "xs = u @ v" "v \<noteq> []" "prefix v b" by blast
      then have "x # xs = (x # u) @ v \<and> v \<noteq> [] \<and> prefix v b" by simp
      then show ?thesis by blast
    qed
  next
    assume "\<exists>u v. x # xs = u @ v \<and> v \<noteq> [] \<and> prefix v b"
    then obtain u v where uv: "x # xs = u @ v" "v \<noteq> []" "prefix v b" by blast
    show "overlaps (x # xs) b"
    proof (cases u)
      case Nil
      with uv have "prefix (x # xs) b" by simp
      then show ?thesis by simp
    next
      case (Cons y ys)
      with uv have "xs = ys @ v" by simp
      with uv Cons.IH show ?thesis by auto
    qed
  qed
qed

text \<open>An occurrence of \<open>L\<close> at the head of the text is copied.\<close>

lemma replace_all_prefix_kept:
  assumes "\<not> contains lit L" and "\<not> overlaps L lit"
  shows "L = L1 @ L2 \<Longrightarrow> prefix L2 s \<Longrightarrow> prefix L2 (replace_all lit r s)"
proof (induction L2 arbitrary: L1 s)
  case Nil
  show ?case by simp
next
  case (Cons x L2)
  from Cons.prems(2) obtain s' where s: "s = x # s'" and p: "prefix L2 s'"
    by (cases s) auto
  have ne: "lit \<noteq> []"
    using assms(1) by (cases L) auto
  have np: "\<not> prefix lit s"
  proof
    assume pl: "prefix lit s"
    from prefix_same_cases [OF pl Cons.prems(2)]
    show False
    proof
      assume "prefix lit (x # L2)"
      then have "contains lit (x # L2)" by (rule prefix_contains)
      then have "contains lit (L1 @ (x # L2))" by (rule contains_prependI)
      with Cons.prems(1) assms(1) show False by simp
    next
      assume "prefix (x # L2) lit"
      with Cons.prems(1) have "overlaps L lit"
        unfolding overlaps_iff by blast
      with assms(2) show False by simp
    qed
  qed
  from Cons.prems(1) have "L = (L1 @ [x]) @ L2" by simp
  from Cons.IH [OF this p] have "prefix L2 (replace_all lit r s')" .
  with np ne s show ?case by simp
qed

text \<open>
  Replacing the occurrences of \<open>lit\<close> keeps an occurrence of \<open>L\<close>, when no occurrence
  of \<open>lit\<close> can overlap one of \<open>L\<close>.
\<close>

lemma contains_Nil: "contains [] s"
  by (cases s) simp_all

lemma replace_all_keeps:
  assumes "apart lit L"
  shows "contains L s \<Longrightarrow> contains L (replace_all lit r s)"
proof (induction "length s" arbitrary: s rule: less_induct)
  case less
  from assms have a: "\<not> contains lit L" "\<not> contains L lit" "\<not> overlaps lit L"
    "\<not> overlaps L lit"
    by (simp_all add: apart_def)
  have ne: "lit \<noteq> []" using a(1) contains_Nil by auto
  have Lne: "L \<noteq> []" using a(2) contains_Nil by auto
  from less.prems Lne obtain c cs where s: "s = c # cs" by (cases s) auto
  show ?case
  proof (cases "prefix lit s")
    case True
    then obtain s' where s': "s = lit @ s'" by (auto simp: prefix_def)
    have rs: "replace_all lit r s = r @ replace_all lit r s'"
    proof -
      have "replace_all lit r (c # cs) = r @ replace_all lit r (drop (length lit) (c # cs))"
        using True ne s by simp
      moreover have "drop (length lit) s = s'" using s' by simp
      ultimately show ?thesis using s by simp
    qed
    from less.prems obtain pre post where pp: "s = pre @ L @ post"
      by (auto simp: contains_iff)
    with s' have "lit @ s' = pre @ (L @ post)" by simp
    then consider us where "lit = pre @ us" "us @ s' = L @ post"
      | us where "lit @ us = pre" "s' = us @ L @ post"
      by (auto simp: append_eq_append_conv2)
    then have "contains L s'"
    proof cases
      case 1
      show ?thesis
      proof (cases "us = []")
        case True
        with 1 have "s' = [] @ L @ post" by simp
        then show ?thesis unfolding contains_iff by blast
      next
        case False
        from 1(2) have "prefix us (L @ post)" "prefix L (L @ post)"
          by (auto simp: prefix_def intro: exI [of _ s'])
        from prefix_same_cases [OF this] show ?thesis
        proof
          assume "prefix us L"
          with 1(1) False have "overlaps lit L" unfolding overlaps_iff by blast
          with a(3) show ?thesis by simp
        next
          assume "prefix L us"
          then obtain w where "us = L @ w" by (auto simp: prefix_def)
          with 1(1) have "lit = pre @ L @ w" by simp
          then have "contains L lit" unfolding contains_iff by blast
          with a(2) show ?thesis by simp
        qed
      qed
    next
      case 2
      then show ?thesis unfolding contains_iff by blast
    qed
    moreover have "length s' < length s" using s' ne by simp
    ultimately have "contains L (replace_all lit r s')" by (rule less.hyps [rotated])
    then show ?thesis unfolding rs by (rule contains_prependI)
  next
    case False
    then have rs: "replace_all lit r s = c # replace_all lit r cs"
      using ne s by simp
    show ?thesis
    proof (cases "contains L cs")
      case True
      have "length cs < length s" using s by simp
      from less.hyps [OF this True] show ?thesis unfolding rs by (rule contains_ConsI)
    next
      case nc: False
      with less.prems s have "prefix L s" by simp
      from replace_all_prefix_kept [OF a(1) a(4), of "[]" L s r] this
      have "prefix L (replace_all lit r s)" by simp
      then show ?thesis by (rule prefix_contains)
    qed
  qed
qed

lemma match_here_render:
  "match_here items s = Some (caps, rest) \<Longrightarrow> s = render items caps @ rest"
proof (induction items arbitrary: s caps rest)
  case Nil
  then show ?case by simp
next
  case (Cons i items)
  show ?case
  proof (cases i)
    case (Lit c)
    with Cons.prems obtain xs where "s = c # xs" "match_here items xs = Some (caps, rest)"
      by (auto split: list.splits if_splits)
    with Cons.IH [of xs caps rest] Lit show ?thesis by simp
  next
    case (PlusGroup cls)
    with Cons.prems obtain k where
      "(case match_here items (drop k s) of None \<Rightarrow> None
        | Some (caps', rest') \<Rightarrow> Some (take k s # caps', rest')) = Some (caps, rest)"
      by (auto dest!: greedy_Some)
    then obtain caps' where m: "match_here items (drop k s) = Some (caps', rest)"
      and caps: "caps = take k s # caps'"
      by (auto split: option.splits)
    from Cons.IH [OF m] have "take k s @ drop k s = take k s @ render items caps' @ rest"
      by simp
    then have "s = take k s @ render items caps' @ rest" by simp
    with PlusGroup caps show ?thesis by simp
  qed
qed

lemma render_marker:
  "render FILE_UPLOAD_MARKER_PATTERN [d, f, m] = marker_literal d f m"
  by (simp add: FILE_UPLOAD_MARKER_PATTERN_def marker_literal_def)

text \<open>The literal of every match is in the text.\<close>

lemma findall_literal_in_text:
  "(d, f, m) \<in> set (findall s) \<Longrightarrow> contains (marker_literal d f m) s"
proof (induction "length s" arbitrary: s rule: less_induct)
  case less
  from less.prems obtain c cs where t: "s = c # cs" by (cases s) auto
  show ?case
  proof (cases "match_here FILE_UPLOAD_MARKER_PATTERN (c # cs)")
    case None
    with less.prems t have "(d, f, m) \<in> set (findall cs)" by (simp add: findall_Cons)
    moreover have "length cs < length s" using t by simp
    ultimately have "contains (marker_literal d f m) cs" by (rule less.hyps [rotated])
    then show ?thesis unfolding t by (rule contains_ConsI)
  next
    case (Some a)
    obtain caps rest where a: "a = (caps, rest)" by (cases a) auto
    from match_here_marker_shorter [OF Some [unfolded a]]
    have l: "length rest < length (c # cs)" and "length caps = 3" by simp_all
    then obtain d' f' m' where caps: "caps = [d', f', m']"
      by (cases caps; cases "tl caps"; cases "tl (tl caps)") auto
    from match_here_render [OF Some [unfolded a]] caps
    have eq: "c # cs = marker_literal d' f' m' @ rest" by (simp add: render_marker)
    from less.prems t Some a caps
    consider "(d, f, m) = (d', f', m')" | "(d, f, m) \<in> set (findall rest)"
      by (auto simp: findall_Cons)
    then show ?thesis
    proof cases
      case 1
      with eq have "s = [] @ marker_literal d f m @ rest" using t by simp
      then show ?thesis unfolding contains_iff by blast
    next
      case 2
      from l t have "length rest < length s" by simp
      from less.hyps [OF this 2] have "contains (marker_literal d f m) rest" .
      then have "contains (marker_literal d f m) (marker_literal d' f' m' @ rest)"
        by (rule contains_prependI)
      with eq t show ?thesis by simp
    qed
  qed
qed

lemma process_match_keeps:
  assumes "skipped d \<or> apart (marker_literal d f m) L"
    and "process_match (d, f, m) (clean, ups) = Inr (clean', ups')"
    and "contains L clean"
  shows "contains L clean'"
proof (cases "skipped d")
  case True
  from process_match_skipped [OF True, of f m "(clean, ups)"] assms(2,3) show ?thesis
    by simp
next
  case False
  with assms(1) have ap: "apart (marker_literal d f m) L" by simp
  from process_match_kept [OF False, of f m clean ups] assms(2)
  have "clean' = clean \<or>
        (\<exists>r. clean' = replace_all (marker_literal d f m) r clean)"
    by (auto simp: Let_def re_sub_literal_def split: sum.splits if_splits)
  with assms(3) replace_all_keeps [OF ap] show ?thesis by auto
qed

lemma parse_loop_keeps:
  "\<forall>match\<in>set matches. skipped (fst match) \<or>
      apart (marker_literal (fst match) (fst (snd match)) (snd (snd match))) L \<Longrightarrow>
   parse_loop matches (clean, ups) = Inr (clean', ups') \<Longrightarrow>
   contains L clean \<Longrightarrow> contains L clean'"
proof (induction matches arbitrary: clean ups)
  case Nil
  then show ?case by simp
next
  case (Cons match matches)
  obtain d f m where match: "match = (d, f, m)" by (cases match) auto
  from Cons.prems(2) obtain c1 u1 where
    step: "process_match (d, f, m) (clean, ups) = Inr (c1, u1)"
    and rest: "parse_loop matches (c1, u1) = Inr (clean', ups')"
    by (auto simp: match split: sum.splits)
  from Cons.prems(1) match have "skipped d \<or> apart (marker_literal d f m) L" by simp
  from process_match_keeps [OF this step Cons.prems(3)] have "contains L c1" .
  moreover from Cons.prems(1) have
    "\<forall>match\<in>set matches. skipped (fst match) \<or>
        apart (marker_literal (fst match) (fst (snd match)) (snd (snd match))) L"
    by simp
  ultimately show ?case using rest Cons.IH by blast
qed

text \<open>
  Claim C5, as amended. For a match whose first group makes the codec raise, or decodes to
  an empty or an oversized payload, the iteration of the loop returns normally and leaves
  the cleaned text and the list of uploads exactly as they were: nothing is appended,
  nothing is substituted, nothing is raised. So the extractor computes what its loop
  computes on the kept matches alone, and a text all of whose matches are skipped is
  returned unchanged, with no upload. The literal of the skipped marker is still in the
  returned text whenever it is apart from the literal of every kept match of the text, that
  is, whenever no substitution made for a kept match can touch it.
\<close>

theorem skipped_match_left_in_text:
  "(skipped d \<longrightarrow> process_match (d, f, m) st = Inr st) \<and>
   parse_file_upload_markers text =
     parse_loop (filter (\<lambda>match. \<not> skipped (fst match)) (findall text)) (text, []) \<and>
   ((\<forall>match\<in>set (findall text). skipped (fst match)) \<longrightarrow>
      parse_file_upload_markers text = Inr (text, [])) \<and>
   ((d, f, m) \<in> set (findall text) \<and> skipped d \<and>
    (\<forall>match\<in>set (findall text). \<not> skipped (fst match) \<longrightarrow>
       apart (marker_literal (fst match) (fst (snd match)) (snd (snd match)))
             (marker_literal d f m)) \<and>
    parse_file_upload_markers text = Inr (clean, uploads) \<longrightarrow>
      contains (marker_literal d f m) clean)"
proof -
  have a: "skipped d \<longrightarrow> process_match (d, f, m) st = Inr st"
    by (simp add: process_match_skipped)
  have b: "parse_file_upload_markers text =
      parse_loop (filter (\<lambda>match. \<not> skipped (fst match)) (findall text)) (text, [])"
    unfolding parse_file_upload_markers_def by (rule parse_loop_skip)
  have "filter (\<lambda>match. \<not> skipped (fst match)) (findall text) = []"
    if "\<forall>match\<in>set (findall text). skipped (fst match)"
    using that by (simp add: filter_empty_conv)
  with b have c: "(\<forall>match\<in>set (findall text). skipped (fst match)) \<longrightarrow>
      parse_file_upload_markers text = Inr (text, [])"
    by simp
  have d: "contains (marker_literal d f m) clean"
    if h: "(d, f, m) \<in> set (findall text) \<and> skipped d \<and>
      (\<forall>match\<in>set (findall text). \<not> skipped (fst match) \<longrightarrow>
         apart (marker_literal (fst match) (fst (snd match)) (snd (snd match)))
               (marker_literal d f m)) \<and>
      parse_file_upload_markers text = Inr (clean, uploads)"
  proof -
    from h have "contains (marker_literal d f m) text"
      by (simp add: findall_literal_in_text)
    moreover from h have "\<forall>match\<in>set (findall text). skipped (fst match) \<or>
        apart (marker_literal (fst match) (fst (snd match)) (snd (snd match)))
              (marker_literal d f m)"
      by blast
    moreover from h have "parse_loop (findall text) (text, []) = Inr (clean, uploads)"
      by (simp add: parse_file_upload_markers_def)
    ultimately show ?thesis by (rule parse_loop_keeps [rotated 2])
  qed
  from a b c d show ?thesis by blast
qed

theorem skipped_match_left_in_text_witness:
  "findall (''[FILE_UPLOAD:x,:f:m]'' @ [CHR 0x0A] @ '':][FILE_UPLOAD:B:g:n]'') =
     [(''x,'', ''f'', ''m''), (''B'', ''g'', ''n'')] \<and>
   skipped ''x,'' \<and> \<not> skipped ''B'' \<and>
   parse_file_upload_markers
     (''[FILE_UPLOAD:x,:f:m]'' @ [CHR 0x0A] @ '':][FILE_UPLOAD:B:g:n]'') =
     Inr (''[FILE_UPLOAD:x,:f:m]'' @ [CHR 0x0A] @ '':][Uploaded file: g]'',
          [Dict [''base64_data'' \<mapsto> ''B'', ''filename'' \<mapsto> ''g'', ''mime_type'' \<mapsto> ''n'']]) \<and>
   contains (marker_literal ''x,'' ''f'' ''m'')
     (''[FILE_UPLOAD:x,:f:m]'' @ [CHR 0x0A] @ '':][Uploaded file: g]'')"
proof -
  let ?text = "''[FILE_UPLOAD:x,:f:m]'' @ [CHR 0x0A] @ '':][FILE_UPLOAD:B:g:n]''"
  let ?clean = "''[FILE_UPLOAD:x,:f:m]'' @ [CHR 0x0A] @ '':][Uploaded file: g]''"
  let ?ups = "[Dict [''base64_data'' \<mapsto> ''B'', ''filename'' \<mapsto> ''g'', ''mime_type'' \<mapsto> ''n'']]"
  have fa: "findall ?text = [(''x,'', ''f'', ''m''), (''B'', ''g'', ''n'')]"
    by (simp add: FILE_UPLOAD_MARKER_PATTERN_def)
  have sk: "skipped ''x,''" "\<not> skipped ''B''"
    by (simp_all add: skipped_def extract_base64_from_data_url_def MAX_FILE_SIZE_BASE64_def)
  have ap: "apart (marker_literal ''B'' ''g'' ''n'') (marker_literal ''x,'' ''f'' ''m'')"
    by (simp add: apart_def marker_literal_def)
  have pr: "parse_file_upload_markers ?text = Inr (?clean, ?ups)"
    by (simp add: marker_eval)
  from skipped_match_left_in_text [of "''x,''" "''f''" "''m''" "(''q'', [])" ?text ?clean ?ups]
  have "(''x,'', ''f'', ''m'') \<in> set (findall ?text) \<and> skipped ''x,'' \<and>
    (\<forall>match\<in>set (findall ?text). \<not> skipped (fst match) \<longrightarrow>
       apart (marker_literal (fst match) (fst (snd match)) (snd (snd match)))
             (marker_literal ''x,'' ''f'' ''m'')) \<and>
    parse_file_upload_markers ?text = Inr (?clean, ?ups) \<longrightarrow>
      contains (marker_literal ''x,'' ''f'' ''m'') ?clean"
    by blast
  moreover have "(''x,'', ''f'', ''m'') \<in> set (findall ?text)"
    unfolding fa by simp
  moreover have "\<forall>match\<in>set (findall ?text). \<not> skipped (fst match) \<longrightarrow>
       apart (marker_literal (fst match) (fst (snd match)) (snd (snd match)))
             (marker_literal ''x,'' ''f'' ''m'')"
    unfolding fa using sk ap by simp
  ultimately have "contains (marker_literal ''x,'' ''f'' ''m'') ?clean"
    using sk(1) pr by blast
  with fa sk pr show ?thesis by blast
qed

text \<open>
  The claim as it was stated says that the literal of a skipped marker is still in the
  returned text. The substitution made for a kept match can rewrite it: below, the first
  match is skipped (its payload after the last comma is empty), the second is kept, its
  literal \<open>[FILE_UPLOAD:A:f:m]\<close> also occurs inside the first marker, and \<open>re.sub\<close>
  replaces both occurrences.
\<close>

theorem skipped_marker_rewritten_counterexample:
  "findall (''[FILE_UPLOAD:[FILE_UPLOAD:A:f:m],:f2:m2]'' @ [CHR 0x0A] @ '':][FILE_UPLOAD:A:f:m]'') =
     [(''[FILE_UPLOAD:A:f:m],'', ''f2'', ''m2''), (''A'', ''f'', ''m'')] \<and>
   extract_base64_from_data_url (Some ''[FILE_UPLOAD:A:f:m],'') = Inr [] \<and>
   parse_file_upload_markers
     (''[FILE_UPLOAD:[FILE_UPLOAD:A:f:m],:f2:m2]'' @ [CHR 0x0A] @ '':][FILE_UPLOAD:A:f:m]'') =
     Inr (''[FILE_UPLOAD:[Uploaded file: f],:f2:m2]'' @ [CHR 0x0A] @ '':][Uploaded file: f]'',
          [Dict [''base64_data'' \<mapsto> ''A'', ''filename'' \<mapsto> ''f'', ''mime_type'' \<mapsto> ''m'']]) \<and>
   \<not> contains ''[FILE_UPLOAD:[FILE_UPLOAD:A:f:m],:f2:m2]''
       (''[FILE_UPLOAD:[Uploaded file: f],:f2:m2]'' @ [CHR 0x0A] @ '':][Uploaded file: f]'')"
  by (simp add: marker_eval)

subsection \<open>Several markers\<close>

text \<open>
  Claim C2 (a defect of the code). Two well-formed markers on one line are not found as two
  matches: the first group \<open>(.+)\<close> is greedy and runs up to the last colon that lets the
  rest of the pattern match, so \<open>findall\<close> returns a single match that spans both
  markers, and the extractor returns one upload, whose payload is a piece of the text
  between the two markers, and a cleaned text in which both markers have gone.
\<close>

theorem two_markers_one_match:
  "findall ''[FILE_UPLOAD:data:text/plain;base64,aGk=:a.txt:text/plain] [FILE_UPLOAD:data:text/plain;base64,eW8=:b.txt:text/plain]'' =
     [(''data:text/plain;base64,aGk=:a.txt:text/plain] [FILE_UPLOAD:data:text/plain;base64,eW8='',
       ''b.txt'', ''text/plain'')] \<and>
   parse_file_upload_markers
     ''[FILE_UPLOAD:data:text/plain;base64,aGk=:a.txt:text/plain] [FILE_UPLOAD:data:text/plain;base64,eW8=:b.txt:text/plain]'' =
     Inr (''[Uploaded file: b.txt]'',
          [Dict [''base64_data'' \<mapsto> ''aGk=:a.txt:text/plain] [FILE_UPLOAD:data:text/plain;'',
                 ''filename'' \<mapsto> ''b.txt'', ''mime_type'' \<mapsto> ''text/plain'']])"
  by (simp add: marker_eval)

subsection \<open>The placeholder\<close>

text \<open>
  Claim C7 (a defect of the code). The placeholder is handed to \<open>re.sub\<close> as a
  replacement template, with the file name in it unescaped. For the file name
  \<open>dir\notes.txt\<close> the template engine turns \<open>\n\<close> into a line feed, so the text that
  replaces the marker is not the literal placeholder; for \<open>dir\data.txt\<close> the escape
  \<open>\d\<close> is invalid and \<open>re.error\<close> leaves the extractor.
\<close>

theorem placeholder_template_escapes:
  "parse_file_upload_markers (''see [FILE_UPLOAD:aGk=:dir'' @ [BS] @ ''notes.txt:text/plain]'') =
     Inr (''see [Uploaded file: dir'' @ [CHR 0x0A] @ ''otes.txt]'',
          [Dict [''base64_data'' \<mapsto> ''aGk='', ''filename'' \<mapsto> ''dir'' @ [BS] @ ''notes.txt'',
                 ''mime_type'' \<mapsto> ''text/plain'']]) \<and>
   ''see [Uploaded file: dir'' @ [CHR 0x0A] @ ''otes.txt]'' \<noteq>
     ''see '' @ placeholder (''dir'' @ [BS] @ ''notes.txt'') \<and>
   parse_file_upload_markers (''see [FILE_UPLOAD:aGk=:dir'' @ [BS] @ ''data.txt:text/plain]'') =
     Inl ReError"
  by (simp add: marker_eval template_escape_def ESCAPES_def is_ascii_letter_def is_digit_def)

end
